theory Spec2Isabelle
  imports Main
begin

section \<open>Spark data frames\<close>

text \<open>
  \<open>JSONtoCSV.py\<close> flattens a Spark \<open>DataFrame\<close>. The data frame is a schema, which is a
  list of named columns with their types, and a list of rows, each a list of cells in the
  order of the schema. The flattening code tells three kinds of type apart: \<open>ArrayType\<close>,
  \<open>StructType\<close> and every other type.
\<close>

datatype dtype = ScalarT | ArrayT dtype | StructT "(string \<times> dtype) list"

datatype val = NullV | NumV int | StrV string | BoolV bool | ArrV "val list" | StructV "val list"

type_synonym row = "val list"

record dataframe =
  schema :: "(string \<times> dtype) list"
  rows :: "row list"

text \<open>
  The exceptions of the two programs. \<open>AnalysisException\<close> is what Spark raises when it
  cannot resolve a column; \<open>IOError\<close> stands for a failure of reading or writing storage.
  \<open>NotModelled\<close> marks the calls whose result in Spark this theory does not describe
  (quoted names, the star, fields of the elements of an array): no statement below rests on
  what the model returns there.
\<close>

datatype error = AnalysisException | KeyError | ValueError | IOError | NotModelled

subsection \<open>Python's view of the schema\<close>

text \<open>\<open>df.schema[column_name]\<close> walks the fields and returns the first whose name is equal
  to the key, and raises \<open>KeyError\<close> when there is none.\<close>

definition schema_getitem :: "(string \<times> dtype) list \<Rightarrow> string \<Rightarrow> error + dtype" where
  "schema_getitem sch name = (case map_of sch name of None \<Rightarrow> Inl KeyError | Some t \<Rightarrow> Inr t)"

subsection \<open>Spark's resolution of column names\<close>

text \<open>
  Spark compares names without regard to case (\<open>spark.sql.caseSensitive\<close> is false unless
  set), with Java's \<open>String.equalsIgnoreCase\<close>. A string here is the UTF-8 encoding of the
  name. On names made of ASCII characters \<open>equalsIgnoreCase\<close> is equality after folding the
  letters A to Z, which is \<open>ci_eq\<close>. It folds other letters too, and a letter outside ASCII
  can fold to an ASCII one, so as soon as a name with a character outside ASCII takes part in
  a resolution, this theory does not say what Spark answers (\<open>NotModelled\<close>).
\<close>

definition ascii :: "string \<Rightarrow> bool" where
  "ascii s = list_all (\<lambda>c. \<not> digit7 c) s"

definition lower :: "char \<Rightarrow> char" where
  "lower c = (case map_of (zip ''ABCDEFGHIJKLMNOPQRSTUVWXYZ'' ''abcdefghijklmnopqrstuvwxyz'') c of
                Some l \<Rightarrow> l | None \<Rightarrow> c)"

definition ci_eq :: "string \<Rightarrow> string \<Rightarrow> bool" where
  "ci_eq a b = (map lower a = map lower b)"

text \<open>
  \<open>col(s)\<close> splits \<open>s\<close> at its dots: the first part names a column, the parts after it name
  nested fields. An empty part is a syntax error.
\<close>

fun split_dots :: "string \<Rightarrow> string list" where
  "split_dots [] = [[]]"
| "split_dots (c # cs) =
     (if c = CHR ''.'' then [] # split_dots cs
      else (case split_dots cs of p # ps \<Rightarrow> (c # p) # ps | [] \<Rightarrow> [[c]]))"

definition parse_name :: "string \<Rightarrow> error + string list" where
  "parse_name s =
     (if s = [] \<or> CHR 0x60 \<in> set s \<or> ''*'' \<in> set (split_dots s) \<or> hd s = CHR ''.''
      then Inl NotModelled
      else if [] \<in> set (split_dots s) then Inl AnalysisException
      else Inr (split_dots s))"

text \<open>A name resolves when exactly one of the candidates matches it; none is an
  unresolved reference and several are an ambiguous one.\<close>

definition resolve_name :: "string list \<Rightarrow> string \<Rightarrow> error + nat" where
  "resolve_name names n =
     (if list_all ascii (n # names)
      then (case filter (\<lambda>i. ci_eq (names ! i) n) [0..<length names] of
              [i] \<Rightarrow> Inr i
            | _ \<Rightarrow> Inl AnalysisException)
      else Inl NotModelled)"

text \<open>Following the nested parts into a type: the positions of the fields and the type
  reached.\<close>

fun extract_value :: "dtype \<Rightarrow> string list \<Rightarrow> error + (nat list \<times> dtype)" where
  "extract_value t [] = Inr ([], t)"
| "extract_value (StructT fs) (f # ps) =
     (case resolve_name (map fst fs) f of
        Inl e \<Rightarrow> Inl e
      | Inr j \<Rightarrow> (case extract_value (snd (fs ! j)) ps of
                    Inl e \<Rightarrow> Inl e
                  | Inr (path, t) \<Rightarrow> Inr (j # path, t)))"
| "extract_value (ArrayT (StructT fs)) (f # ps) = Inl NotModelled"
| "extract_value t (f # ps) = Inl AnalysisException"

text \<open>The column expressions the code builds: \<open>col(s)\<close>, which a bare string in \<open>select\<close>
  also stands for, and \<open>c.alias(name)\<close>.\<close>

datatype column = Col string | Alias column string

text \<open>A resolved column: the name it gets in the output, the column of the input it
  reads, the path of fields inside that column, and its type.\<close>

fun resolve_col :: "(string \<times> dtype) list \<Rightarrow> column \<Rightarrow> error + (string \<times> nat \<times> nat list \<times> dtype)" where
  "resolve_col sch (Col s) =
     (case parse_name s of
        Inl e \<Rightarrow> Inl e
      | Inr [] \<Rightarrow> Inl AnalysisException
      | Inr (p # ps) \<Rightarrow>
          (case resolve_name (map fst sch) p of
             Inl e \<Rightarrow> Inl e
           | Inr i \<Rightarrow> (case extract_value (snd (sch ! i)) ps of
                         Inl e \<Rightarrow> Inl e
                       | Inr (path, t) \<Rightarrow> Inr (last (p # ps), i, path, t))))"
| "resolve_col sch (Alias c name) =
     (case resolve_col sch c of
        Inl e \<Rightarrow> Inl e
      | Inr (_, i, path, t) \<Rightarrow> Inr (name, i, path, t))"

fun resolve_cols :: "(string \<times> dtype) list \<Rightarrow> column list \<Rightarrow> error + (string \<times> nat \<times> nat list \<times> dtype) list" where
  "resolve_cols sch [] = Inr []"
| "resolve_cols sch (c # cs) =
     (case resolve_col sch c of
        Inl e \<Rightarrow> Inl e
      | Inr r \<Rightarrow> (case resolve_cols sch cs of Inl e \<Rightarrow> Inl e | Inr rs \<Rightarrow> Inr (r # rs)))"

subsection \<open>\<open>select\<close>, \<open>explode\<close> and \<open>withColumn\<close>\<close>

definition cell :: "val list \<Rightarrow> nat \<Rightarrow> val" where
  "cell r i = (if i < length r then r ! i else NullV)"

text \<open>The field of a struct value; a field of a null struct is null.\<close>

fun get_path :: "val \<Rightarrow> nat list \<Rightarrow> val" where
  "get_path v [] = v"
| "get_path (StructV vs) (j # js) = get_path (cell vs j) js"
| "get_path v (j # js) = NullV"

text \<open>\<open>df.select(cols)\<close>: all columns are resolved against the schema of \<open>df\<close> (the first
  failure is raised); the output may hold the same name twice.\<close>

definition select :: "dataframe \<Rightarrow> column list \<Rightarrow> error + dataframe" where
  "select df cols =
     (case resolve_cols (schema df) cols of
        Inl e \<Rightarrow> Inl e
      | Inr rs \<Rightarrow>
          Inr \<lparr>schema = map (\<lambda>(name, i, path, t). (name, t)) rs,
               rows = map (\<lambda>r. map (\<lambda>(name, i, path, t). get_path (cell r i) path) rs) (rows df)\<rparr>)"

text \<open>\<open>explode\<close> gives one row for each element of an array and no row for a null or empty
  array.\<close>

fun explode :: "val \<Rightarrow> val list" where
  "explode (ArrV xs) = xs"
| "explode v = []"

text \<open>\<open>df.withColumn(name, explode(name))\<close>: the column keeps its place and its name, its
  type becomes the element type, and each row is repeated once for each element. Exploding
  what is not an array is an analysis error.\<close>

definition withColumn_explode :: "dataframe \<Rightarrow> string \<Rightarrow> error + dataframe" where
  "withColumn_explode df name =
     (case resolve_col (schema df) (Col name) of
        Inl e \<Rightarrow> Inl e
      | Inr (_, i, path, t) \<Rightarrow>
          (case t of
             ArrayT elem \<Rightarrow>
               if path = []
               then Inr \<lparr>schema = (schema df)[i := (name, elem)],
                         rows = concat (map (\<lambda>r. map (\<lambda>x. r[i := x]) (explode (cell r i))) (rows df))\<rparr>
               else Inl NotModelled
           | _ \<Rightarrow> Inl AnalysisException))"

section \<open>The flattener (JSONtoCSV.py)\<close>

subsection \<open>\<open>read_nested_json\<close>: one pass\<close>

text \<open>
  The \<open>for\<close> loop of lines 33 to 44 runs over the names the schema had when the loop
  started; the type of each name is looked up in the data frame as the loop has changed it
  so far. The loop carries the data frame and \<open>column_list\<close>.
\<close>

fun column_loop :: "string list \<Rightarrow> dataframe \<Rightarrow> column list \<Rightarrow> error + (dataframe \<times> column list)" where
  "column_loop [] df column_list = Inr (df, column_list)"
| "column_loop (column_name # rest) df column_list =
     (case schema_getitem (schema df) column_name of
        Inl e \<Rightarrow> Inl e
      | Inr (ArrayT _) \<Rightarrow>
          (case withColumn_explode df column_name of
             Inl e \<Rightarrow> Inl e
           | Inr df' \<Rightarrow> column_loop rest df' (column_list @ [Col column_name]))
      | Inr (StructT struct_fields) \<Rightarrow>
          column_loop rest df
            (column_list @
             map (\<lambda>(fname, _). Alias (Col (column_name @ ''.'' @ fname)) (column_name @ ''_'' @ fname))
               struct_fields)
      | Inr ScalarT \<Rightarrow> column_loop rest df (column_list @ [Col column_name]))"

definition read_nested_json :: "dataframe \<Rightarrow> error + dataframe" where
  "read_nested_json df =
     (case column_loop (map fst (schema df)) df [] of
        Inl e \<Rightarrow> Inl e
      | Inr (df', column_list) \<Rightarrow> select df' column_list)"

subsection \<open>The check after a pass\<close>

text \<open>Lines 64 to 70: the flag is set when the type that \<open>df.schema[column_name]\<close> returns
  for a name of the schema is an array or a struct.\<close>

fun flag_loop :: "(string \<times> dtype) list \<Rightarrow> string list \<Rightarrow> bool \<Rightarrow> error + bool" where
  "flag_loop sch [] flag = Inr flag"
| "flag_loop sch (column_name # rest) flag =
     (case schema_getitem sch column_name of
        Inl e \<Rightarrow> Inl e
      | Inr (ArrayT _) \<Rightarrow> flag_loop sch rest True
      | Inr (StructT _) \<Rightarrow> flag_loop sch rest True
      | Inr ScalarT \<Rightarrow> flag_loop sch rest flag)"

subsection \<open>Nesting depth\<close>

text \<open>The depth of a type counts the arrays and structs on its longest path; the depth of
  a batch is the depth of its record type, the struct of its columns.\<close>

fun maxl :: "nat list \<Rightarrow> nat" where
  "maxl [] = 0"
| "maxl (x # xs) = max x (maxl xs)"

fun tdepth :: "dtype \<Rightarrow> nat" where
  "tdepth ScalarT = 0"
| "tdepth (ArrayT t) = Suc (tdepth t)"
| "tdepth (StructT fs) = Suc (maxl (map (\<lambda>f. tdepth (snd f)) fs))"

definition sdepth :: "(string \<times> dtype) list \<Rightarrow> nat" where
  "sdepth sch = maxl (map (\<lambda>f. tdepth (snd f)) sch)"

definition depth :: "dataframe \<Rightarrow> nat" where
  "depth df = tdepth (StructT (schema df))"

lemma maxl_ge: "x \<in> set xs \<Longrightarrow> x \<le> maxl xs"
  by (induction xs) auto

lemma maxl_le: "(\<And>x. x \<in> set xs \<Longrightarrow> x \<le> b) \<Longrightarrow> maxl xs \<le> b"
  by (induction xs) auto

lemma tdepth_le_sdepth: "(n, t) \<in> set sch \<Longrightarrow> tdepth t \<le> sdepth sch"
  unfolding sdepth_def by (rule maxl_ge) force

lemma tdepth_nth_le_sdepth: "i < length sch \<Longrightarrow> tdepth (snd (sch ! i)) \<le> sdepth sch"
  unfolding sdepth_def by (rule maxl_ge) force

subsection \<open>Facts about name resolution\<close>

lemma filter_singleton:
  assumes "filter P xs = [i]"
  shows "i \<in> set xs \<and> P i \<and> (\<forall>j \<in> set xs. P j \<longrightarrow> j = i)"
proof -
  have "set (filter P xs) = {i}" using assms by simp
  then show ?thesis by auto
qed

lemma resolve_name_Inr:
  assumes "resolve_name names n = Inr i"
  shows "i < length names \<and> ci_eq (names ! i) n \<and>
         (\<forall>j < length names. ci_eq (names ! j) n \<longrightarrow> j = i)"
proof -
  have "filter (\<lambda>i. ci_eq (names ! i) n) [0..<length names] = [i]"
    using assms by (auto simp: resolve_name_def split: list.splits if_splits)
  from filter_singleton [OF this] show ?thesis by auto
qed

lemma ci_eq_refl: "ci_eq a a"
  by (simp add: ci_eq_def)

lemma split_dots_nonempty: "split_dots s \<noteq> []"
  by (induction s) (auto split: list.splits)

lemma split_dots_single: "split_dots s = [p] \<Longrightarrow> p = s \<and> CHR ''.'' \<notin> set s"
  by (induction s arbitrary: p) (auto simp: split_dots_nonempty split: list.splits if_splits)

lemma split_dots_dot: "CHR ''.'' \<in> set s \<Longrightarrow> \<exists>p q ps. split_dots s = p # q # ps"
proof (induction s)
  case Nil
  then show ?case by simp
next
  case (Cons c cs)
  show ?case
  proof (cases "c = CHR ''.''")
    case True
    then show ?thesis
      using split_dots_nonempty [of cs] by (cases "split_dots cs") auto
  next
    case False
    with Cons show ?thesis by auto
  qed
qed

lemma extract_value_depth:
  "extract_value t ps = Inr (path, t') \<Longrightarrow>
     tdepth t' \<le> tdepth t \<and> (ps \<noteq> [] \<longrightarrow> tdepth t' < tdepth t) \<and> (path = [] \<longleftrightarrow> ps = [])"
proof (induction t ps arbitrary: path t' rule: extract_value.induct)
  case (1 t)
  then show ?case by simp
next
  case (2 fs f ps)
  from "2.prems" obtain j path' where
    j: "resolve_name (map fst fs) f = Inr j" and
    e: "extract_value (snd (fs ! j)) ps = Inr (path', t')" and p: "path = j # path'"
    by (auto split: sum.splits)
  from resolve_name_Inr [OF j] have "j < length fs" by simp
  then have "tdepth (snd (fs ! j)) \<le> maxl (map (\<lambda>f. tdepth (snd f)) fs)"
    by (intro maxl_ge) force
  moreover from "2.IH" [OF j e] have "tdepth t' \<le> tdepth (snd (fs ! j))" by simp
  ultimately show ?case using p by simp
qed simp_all


subsection \<open>Schemas that only lose nesting\<close>

text \<open>The schema \<open>s2\<close> has the names of \<open>s1\<close>, and no column of it is nested deeper.\<close>

definition le_schema :: "(string \<times> dtype) list \<Rightarrow> (string \<times> dtype) list \<Rightarrow> bool" where
  "le_schema s2 s1 = list_all2 (\<lambda>a b. fst a = fst b \<and> tdepth (snd a) \<le> tdepth (snd b)) s2 s1"

lemma le_schema_refl: "le_schema s s"
  by (simp add: le_schema_def list_all2_refl)

lemma le_schema_trans: "le_schema s3 s2 \<Longrightarrow> le_schema s2 s1 \<Longrightarrow> le_schema s3 s1"
  unfolding le_schema_def list_all2_conv_all_nth
  by (auto dest!: spec intro: order_trans)

lemma le_schema_names: "le_schema s2 s1 \<Longrightarrow> map fst s2 = map fst s1"
  unfolding le_schema_def by (induction rule: list_all2_induct) auto

lemma le_schema_sdepth: "le_schema s2 s1 \<Longrightarrow> sdepth s2 \<le> sdepth s1"
  unfolding le_schema_def sdepth_def by (induction rule: list_all2_induct) auto

lemma le_schema_map_of:
  "le_schema s2 s1 \<Longrightarrow> map_of s1 n = Some t \<Longrightarrow>
     \<exists>t'. map_of s2 n = Some t' \<and> tdepth t' \<le> tdepth t"
  unfolding le_schema_def
  by (induction arbitrary: t rule: list_all2_induct) (auto split: if_splits)

lemma map_of_first:
  "map_of s n = Some t \<Longrightarrow> \<exists>p < length s. s ! p = (n, t) \<and> (\<forall>q < p. fst (s ! q) \<noteq> n)"
proof (induction s)
  case Nil
  then show ?case by simp
next
  case (Cons a s)
  show ?case
  proof (cases "fst a = n")
    case True
    with Cons.prems have "a = (n, t)" by (cases a) auto
    then show ?thesis by (intro exI [of _ 0]) simp
  next
    case False
    with Cons obtain p where p: "p < length s" "s ! p = (n, t)" "\<forall>q < p. fst (s ! q) \<noteq> n"
      by (cases a) auto
    show ?thesis
    proof (intro exI [of _ "Suc p"] conjI allI impI)
      fix q assume "q < Suc p"
      then show "fst ((a # s) ! q) \<noteq> n"
        using False p(3) by (cases q) auto
    qed (use p in auto)
  qed
qed

lemma map_of_update_first:
  "p < length s \<Longrightarrow> \<forall>q < p. fst (s ! q) \<noteq> n \<Longrightarrow> map_of (s[p := (n, t)]) n = Some t"
proof (induction s arbitrary: p)
  case Nil
  then show ?case by simp
next
  case (Cons a s)
  show ?case
  proof (cases p)
    case 0
    then show ?thesis by simp
  next
    case (Suc p')
    from Cons.prems(2) Suc have "fst a \<noteq> n" by force
    moreover from Cons.prems(2) Suc have "\<forall>q < p'. fst (s ! q) \<noteq> n" by force
    ultimately show ?thesis
      using Cons.IH [of p'] Cons.prems(1) Suc by (cases a) auto
  qed
qed

text \<open>A name that Spark resolves to one column is the name Python's lookup finds.\<close>

lemma resolve_name_map_of:
  assumes "resolve_name (map fst s) n = Inr i" and "map_of s n = Some t"
  shows "s ! i = (n, t) \<and> (\<forall>q < i. fst (s ! q) \<noteq> n)"
proof -
  from map_of_first [OF assms(2)] obtain p where
    p: "p < length s" "s ! p = (n, t)" "\<forall>q < p. fst (s ! q) \<noteq> n" by blast
  then have "ci_eq (map fst s ! p) n" by (simp add: ci_eq_refl)
  with resolve_name_Inr [OF assms(1)] p(1) have "p = i" by simp
  with p show ?thesis by simp
qed

lemma resolve_col_Col_Inr:
  assumes "resolve_col sch (Col s) = Inr (nm, i, path, t)"
  shows "\<exists>p ps. parse_name s = Inr (p # ps) \<and> resolve_name (map fst sch) p = Inr i \<and>
                extract_value (snd (sch ! i)) ps = Inr (path, t)"
  using assms by (auto split: sum.splits list.splits)

lemma parse_name_Inr: "parse_name s = Inr ps \<Longrightarrow> ps = split_dots s"
  by (auto simp: parse_name_def split: if_splits)

lemma withColumn_explode_Inr:
  assumes "withColumn_explode df n = Inr df'"
  shows "\<exists>i elem. resolve_name (map fst (schema df)) n = Inr i \<and> i < length (schema df) \<and>
           snd (schema df ! i) = ArrayT elem \<and>
           df' = \<lparr>schema = (schema df)[i := (n, elem)],
                   rows = concat (map (\<lambda>r. map (\<lambda>x. r[i := x]) (explode (cell r i))) (rows df))\<rparr>"
proof -
  from assms obtain nm i path t where
    r: "resolve_col (schema df) (Col n) = Inr (nm, i, path, t)"
    by (auto simp: withColumn_explode_def split: sum.splits)
  with assms obtain elem where t: "t = ArrayT elem" and path: "path = []" and
    df': "df' = \<lparr>schema = (schema df)[i := (n, elem)],
                  rows = concat (map (\<lambda>r. map (\<lambda>x. r[i := x]) (explode (cell r i))) (rows df))\<rparr>"
    by (auto simp: withColumn_explode_def split: dtype.splits if_splits)
  from resolve_col_Col_Inr [OF r] obtain p ps where
    p: "parse_name n = Inr (p # ps)" "resolve_name (map fst (schema df)) p = Inr i"
       "extract_value (snd (schema df ! i)) ps = Inr (path, t)" by blast
  from extract_value_depth [OF p(3)] path have "ps = []" by simp
  with p(1) parse_name_Inr have "split_dots n = [p]" by force
  then have "p = n" by (simp add: split_dots_single)
  moreover from p(3) \<open>ps = []\<close> have "snd (schema df ! i) = t" by simp
  moreover from resolve_name_Inr [OF p(2)] have "i < length (schema df)" by simp
  ultimately show ?thesis using p(2) t df' by blast
qed

lemma le_schema_update:
  "i < length s \<Longrightarrow> fst (s ! i) = n \<Longrightarrow> tdepth t \<le> tdepth (snd (s ! i)) \<Longrightarrow>
     le_schema (s[i := (n, t)]) s"
  unfolding le_schema_def
  by (auto simp: list_all2_conv_all_nth nth_list_update)

lemma withColumn_explode_shrinks:
  assumes "withColumn_explode df n = Inr df'" and "map_of (schema df) n = Some (ArrayT e)"
  shows "le_schema (schema df') (schema df) \<and> map_of (schema df') n = Some e"
proof -
  from withColumn_explode_Inr [OF assms(1)] obtain i elem where
    i: "resolve_name (map fst (schema df)) n = Inr i" "i < length (schema df)"
       "snd (schema df ! i) = ArrayT elem" "schema df' = (schema df)[i := (n, elem)]"
    by auto
  from resolve_name_map_of [OF i(1) assms(2)] have
    at: "schema df ! i = (n, ArrayT e)" and first: "\<forall>q < i. fst (schema df ! q) \<noteq> n" by simp_all
  with i(3) have "elem = e" by simp
  with i(2,4) at first show ?thesis
    by (simp add: le_schema_update map_of_update_first)
qed


subsection \<open>One pass removes one level of nesting\<close>

text \<open>What the loop knows of a column it has appended, for a bound \<open>D\<close> on the nesting of
  the schema: a nested field reference, or a name whose column is one level below \<open>D\<close>.\<close>

fun appended :: "nat \<Rightarrow> (string \<times> dtype) list \<Rightarrow> column \<Rightarrow> bool" where
  "appended D sch (Col n) = (case map_of sch n of None \<Rightarrow> False | Some t \<Rightarrow> tdepth t \<le> D - 1)"
| "appended D sch (Alias (Col s) name) = (CHR ''.'' \<in> set s)"
| "appended D sch (Alias c name) = False"

lemma appended_mono:
  assumes "appended D s1 c" and "le_schema s2 s1"
  shows "appended D s2 c"
proof (cases c)
  case (Col n)
  with assms(1) obtain t where "map_of s1 n = Some t" "tdepth t \<le> D - 1"
    by (auto split: option.splits)
  with le_schema_map_of [OF assms(2)] Col show ?thesis by fastforce
next
  case (Alias c' name)
  with assms(1) show ?thesis by (cases c') auto
qed

lemma resolve_Col_depth:
  assumes "resolve_col sch (Col s) = Inr (nm, i, path, t)" and "sdepth sch \<le> D"
    and "CHR ''.'' \<in> set s \<or> (\<exists>t0. map_of sch s = Some t0 \<and> tdepth t0 \<le> D - 1)"
  shows "tdepth t \<le> D - 1"
proof -
  from resolve_col_Col_Inr [OF assms(1)] obtain p ps where
    p: "parse_name s = Inr (p # ps)" "resolve_name (map fst sch) p = Inr i"
       "extract_value (snd (sch ! i)) ps = Inr (path, t)" by blast
  from resolve_name_Inr [OF p(2)] have i: "i < length sch" by simp
  then have le: "tdepth (snd (sch ! i)) \<le> D"
    using tdepth_nth_le_sdepth [of i sch] assms(2) by simp
  show ?thesis
  proof (cases "ps = []")
    case True
    with p(1) parse_name_Inr have "split_dots s = [p]" by force
    then have ps: "p = s" "CHR ''.'' \<notin> set s" by (simp_all add: split_dots_single)
    with assms(3) obtain t0 where t0: "map_of sch s = Some t0" "tdepth t0 \<le> D - 1" by blast
    from resolve_name_map_of [of sch s i t0] p(2) ps(1) t0(1) have "snd (sch ! i) = t0" by simp
    with p(3) True t0(2) show ?thesis by simp
  next
    case False
    with extract_value_depth [OF p(3)] have "tdepth t < tdepth (snd (sch ! i))" by simp
    with le show ?thesis by arith
  qed
qed

lemma resolve_col_depth:
  assumes "resolve_col sch c = Inr (nm, i, path, t)" and "sdepth sch \<le> D" and "appended D sch c"
  shows "tdepth t \<le> D - 1"
proof (cases c)
  case (Col s)
  with assms show ?thesis
    by (intro resolve_Col_depth [of sch s nm i path t D]) (auto split: option.splits)
next
  case (Alias c' name)
  with assms(3) obtain s where c': "c' = Col s" and dot: "CHR ''.'' \<in> set s"
    by (cases c') auto
  with assms(1) Alias obtain nm' where "resolve_col sch (Col s) = Inr (nm', i, path, t)"
    by (auto split: sum.splits)
  from resolve_Col_depth [OF this assms(2)] dot show ?thesis by simp
qed

lemma column_loop_shrinks:
  assumes "column_loop ns df cl = Inr (dfE, clE)" and "sdepth (schema df) \<le> D"
    and "\<forall>c \<in> set cl. appended D (schema df) c"
  shows "le_schema (schema dfE) (schema df) \<and> (\<forall>c \<in> set clE. appended D (schema dfE) c)"
  using assms
proof (induction ns arbitrary: df cl)
  case Nil
  then show ?case by (simp add: le_schema_refl)
next
  case (Cons n ns)
  from Cons.prems(1) obtain t where t: "map_of (schema df) n = Some t"
    by (auto simp: schema_getitem_def split: option.splits)
  show ?case
  proof (cases t)
    case ScalarT
    with t Cons.prems(1) have loop: "column_loop ns df (cl @ [Col n]) = Inr (dfE, clE)"
      by (simp add: schema_getitem_def)
    have "\<forall>c \<in> set (cl @ [Col n]). appended D (schema df) c"
      using Cons.prems(3) t ScalarT by simp
    from Cons.IH [OF loop Cons.prems(2) this] show ?thesis .
  next
    case (ArrayT e)
    with t Cons.prems(1) obtain df1 where
      w: "withColumn_explode df n = Inr df1" and
      loop: "column_loop ns df1 (cl @ [Col n]) = Inr (dfE, clE)"
      by (auto simp: schema_getitem_def split: sum.splits)
    from withColumn_explode_shrinks [OF w] t ArrayT have
      le: "le_schema (schema df1) (schema df)" and e: "map_of (schema df1) n = Some e" by simp_all
    have d1: "sdepth (schema df1) \<le> D"
      using le_schema_sdepth [OF le] Cons.prems(2) by simp
    have "tdepth (ArrayT e) \<le> D"
      using map_of_SomeD [OF t] tdepth_le_sdepth [of n t "schema df"] Cons.prems(2) ArrayT by simp
    then have "appended D (schema df1) (Col n)" using e by simp
    moreover have "\<forall>c \<in> set cl. appended D (schema df1) c"
      using Cons.prems(3) appended_mono [OF _ le] by blast
    ultimately have "\<forall>c \<in> set (cl @ [Col n]). appended D (schema df1) c" by simp
    from Cons.IH [OF loop d1 this] le show ?thesis
      by (blast intro: le_schema_trans)
  next
    case (StructT fs)
    let ?new = "map (\<lambda>(fname, _). Alias (Col (n @ ''.'' @ fname)) (n @ ''_'' @ fname)) fs"
    from StructT t Cons.prems(1) have loop: "column_loop ns df (cl @ ?new) = Inr (dfE, clE)"
      by (simp add: schema_getitem_def)
    have "\<forall>c \<in> set (cl @ ?new). appended D (schema df) c"
      using Cons.prems(3) by auto
    from Cons.IH [OF loop Cons.prems(2) this] show ?thesis .
  qed
qed

lemma resolve_cols_Inr:
  "resolve_cols sch cs = Inr rs \<Longrightarrow> r \<in> set rs \<Longrightarrow> \<exists>c \<in> set cs. resolve_col sch c = Inr r"
  by (induction cs arbitrary: rs) (auto split: sum.splits)

lemma read_nested_json_depth:
  assumes "read_nested_json df = Inr df'"
  shows "sdepth (schema df') \<le> sdepth (schema df) - 1"
proof -
  let ?D = "sdepth (schema df)"
  from assms obtain dfE clE rs where
    loop: "column_loop (map fst (schema df)) df [] = Inr (dfE, clE)" and
    rs: "resolve_cols (schema dfE) clE = Inr rs" and
    sch: "schema df' = map (\<lambda>(name, i, path, t). (name, t)) rs"
    by (auto simp: read_nested_json_def select_def split: sum.splits)
  from column_loop_shrinks [OF loop, of ?D] have
    le: "le_schema (schema dfE) (schema df)" and app: "\<forall>c \<in> set clE. appended ?D (schema dfE) c"
    by simp_all
  have dE: "sdepth (schema dfE) \<le> ?D" by (rule le_schema_sdepth [OF le])
  have "tdepth (snd f) \<le> ?D - 1" if "f \<in> set (schema df')" for f
  proof -
    from that sch obtain nm i path t where r: "(nm, i, path, t) \<in> set rs" and f: "f = (nm, t)"
      by auto
    from resolve_cols_Inr [OF rs r] obtain c where
      "c \<in> set clE" "resolve_col (schema dfE) c = Inr (nm, i, path, t)" by blast
    with resolve_col_depth [OF _ dE] app f show ?thesis by auto
  qed
  then show ?thesis
    unfolding sdepth_def [of "schema df'"] by (intro maxl_le) auto
qed


subsection \<open>\<open>flatten\<close>: passes until the flag stays down\<close>

lemma flag_loop_True:
  "flag_loop sch ns flag = Inr True \<Longrightarrow>
     flag \<or> (\<exists>n t. map_of sch n = Some t \<and> 0 < tdepth t)"
proof (induction ns arbitrary: flag)
  case Nil
  then show ?case by simp
next
  case (Cons n ns)
  from Cons.prems obtain t where t: "map_of sch n = Some t"
    by (auto simp: schema_getitem_def split: option.splits)
  show ?case
  proof (cases t)
    case ScalarT
    with t Cons show ?thesis by (simp add: schema_getitem_def)
  next
    case (ArrayT e)
    with t have "map_of sch n = Some t \<and> 0 < tdepth t" by simp
    then show ?thesis by blast
  next
    case (StructT fs)
    with t have "map_of sch n = Some t \<and> 0 < tdepth t" by simp
    then show ?thesis by blast
  qed
qed

lemma flag_loop_sdepth: "flag_loop sch ns False = Inr True \<Longrightarrow> 0 < sdepth sch"
proof -
  assume "flag_loop sch ns False = Inr True"
  from flag_loop_True [OF this] obtain n t where "map_of sch n = Some t" "0 < tdepth t" by auto
  with tdepth_le_sdepth [OF map_of_SomeD, of sch n t] show ?thesis by simp
qed

text \<open>
  The \<open>while\<close> loop of lines 60 to 71. The flag starts raised, so each call below is one
  iteration: a pass, then the check. Beside the result of \<open>flatten\<close> the function counts the
  passes it has started. The loop ends because a pass that succeeds lowers the nesting of
  the schema.
\<close>

function flatten_passes :: "dataframe \<Rightarrow> (error + dataframe) \<times> nat" where
  "flatten_passes df =
     (case read_nested_json df of
        Inl e \<Rightarrow> (Inl e, 1)
      | Inr df' \<Rightarrow>
          (case flag_loop (schema df') (map fst (schema df')) False of
             Inl e \<Rightarrow> (Inl e, 1)
           | Inr read_nested_json_flag \<Rightarrow>
               if read_nested_json_flag
               then (case flatten_passes df' of (result, passes) \<Rightarrow> (result, Suc passes))
               else (Inr df', 1)))"
  by pat_completeness auto
termination
proof (relation "measure (\<lambda>df. sdepth (schema df))")
  fix df df' flag
  assume "read_nested_json df = Inr df'"
    and "flag_loop (schema df') (map fst (schema df')) False = Inr flag" and flag
  with read_nested_json_depth [of df df'] flag_loop_sdepth [of "schema df'"]
  show "(df', df) \<in> measure (\<lambda>df. sdepth (schema df))" by fastforce
qed simp


declare flatten_passes.simps [simp del]

lemma flatten_passes_bound: "snd (flatten_passes df) \<le> max 1 (sdepth (schema df))"
proof (induction df rule: flatten_passes.induct)
  case (1 df)
  show ?case
  proof (cases "read_nested_json df")
    case (Inl e)
    then show ?thesis by (subst flatten_passes.simps) simp
  next
    case (Inr df')
    note pass = this
    show ?thesis
    proof (cases "flag_loop (schema df') (map fst (schema df')) False")
      case (Inl e)
      with pass show ?thesis by (subst flatten_passes.simps) simp
    next
      case (Inr flag)
      show ?thesis
      proof (cases flag)
        case False
        with pass Inr show ?thesis by (subst flatten_passes.simps) simp
      next
        case True
        from "1.IH" [OF pass Inr True] have "snd (flatten_passes df') \<le> max 1 (sdepth (schema df'))" .
        moreover from flag_loop_sdepth [of "schema df'"] Inr True have "0 < sdepth (schema df')"
          by simp
        moreover note read_nested_json_depth [OF pass]
        ultimately have "Suc (snd (flatten_passes df')) \<le> max 1 (sdepth (schema df))" by simp
        with pass Inr True show ?thesis
          by (subst flatten_passes.simps) (simp add: case_prod_beta)
      qed
    qed
  qed
qed

lemma flatten_passes_le_depth: "snd (flatten_passes df) \<le> depth df"
  using flatten_passes_bound [of df] by (simp add: depth_def sdepth_def)


section \<open>What one pass computes\<close>

text \<open>
  Names that Spark resolves to the column the code means: a plain name is made of ASCII
  characters, has no dot and no backquote, is not empty and is not the star; a list of
  names is resolvable when all are plain and no two are equal up to case.
\<close>

definition plain :: "string \<Rightarrow> bool" where
  "plain n \<longleftrightarrow>
     ascii n \<and> n \<noteq> [] \<and> n \<noteq> ''*'' \<and> CHR ''.'' \<notin> set n \<and> CHR 0x60 \<notin> set n"

definition resolvable :: "string list \<Rightarrow> bool" where
  "resolvable names \<longleftrightarrow> list_all plain names \<and> distinct (map (map lower) names)"

text \<open>A batch is well formed when the names of its columns and the names of the fields of
  each struct column are resolvable, and each row has one cell for each column.\<close>

fun fields_resolvable :: "dtype \<Rightarrow> bool" where
  "fields_resolvable (StructT fs) = resolvable (map fst fs)"
| "fields_resolvable t = True"

definition well_formed :: "dataframe \<Rightarrow> bool" where
  "well_formed df \<longleftrightarrow>
     resolvable (map fst (schema df)) \<and>
     list_all (\<lambda>f. fields_resolvable (snd f)) (schema df) \<and>
     list_all (\<lambda>r. length r = length (schema df)) (rows df)"

text \<open>
  The pass as section 4.1 of the specification words it, column by column: a list column
  becomes a column of its elements, a struct column becomes one column for each field,
  named parent, underscore, field, and any other column stays. A row becomes one row for
  each choice of an element from each of its lists. \<open>one_pass\<close> follows these words, not the
  code; \<open>read_nested_json_one_pass\<close> below shows that \<open>read_nested_json\<close> computes it on every
  well-formed batch.
\<close>

fun out_fields :: "string \<times> dtype \<Rightarrow> (string \<times> dtype) list" where
  "out_fields (n, ArrayT e) = [(n, e)]"
| "out_fields (n, StructT fs) = map (\<lambda>(f, t). (n @ ''_'' @ f, t)) fs"
| "out_fields (n, ScalarT) = [(n, ScalarT)]"

fun out_cells :: "dtype \<Rightarrow> val \<Rightarrow> val list list" where
  "out_cells (ArrayT e) v = map (\<lambda>x. [x]) (explode v)"
| "out_cells (StructT fs) v = [map (\<lambda>j. get_path v [j]) [0..<length fs]]"
| "out_cells ScalarT v = [[v]]"

fun out_rows :: "(string \<times> dtype) list \<Rightarrow> row \<Rightarrow> row list" where
  "out_rows ((n, t) # sch) (v # r) =
     concat (map (\<lambda>c. map (\<lambda>rest. c @ rest) (out_rows sch r)) (out_cells t v))"
| "out_rows sch r = [[]]"

definition one_pass :: "dataframe \<Rightarrow> dataframe" where
  "one_pass df = \<lparr>schema = concat (map out_fields (schema df)),
                   rows = concat (map (out_rows (schema df)) (rows df))\<rparr>"

subsection \<open>Resolution of plain, distinct names\<close>

lemma filter_eq_upt: "filter (\<lambda>j. j = i) [0..<n] = (if i < n then [i] else [])"
  by (induction n) auto

lemma resolvable_ascii: "resolvable names \<Longrightarrow> i < length names \<Longrightarrow> list_all ascii (names ! i # names)"
  by (auto simp: resolvable_def plain_def list_all_iff)

lemma resolve_name_nth:
  assumes "resolvable names" and "i < length names"
  shows "resolve_name names (names ! i) = Inr i"
proof -
  have d: "distinct (map (map lower) names)" using assms(1) by (simp add: resolvable_def)
  have "ci_eq (names ! j) (names ! i) \<longleftrightarrow> j = i" if "j \<in> set [0..<length names]" for j
  proof -
    from that have j: "j < length (map (map lower) names)" by simp
    from assms(2) have i: "i < length (map (map lower) names)" by simp
    from nth_eq_iff_index_eq [OF d j i] j i show ?thesis
      by (simp add: ci_eq_def)
  qed
  then have "filter (\<lambda>j. ci_eq (names ! j) (names ! i)) [0..<length names] =
             filter (\<lambda>j. j = i) [0..<length names]"
    by (intro filter_cong) auto
  with assms(2) resolvable_ascii [OF assms] show ?thesis
    by (simp add: resolve_name_def filter_eq_upt)
qed

lemma split_dots_plain: "CHR ''.'' \<notin> set n \<Longrightarrow> split_dots n = [n]"
  by (induction n) auto

lemma split_dots_append: "CHR ''.'' \<notin> set n \<Longrightarrow> split_dots (n @ CHR ''.'' # f) = n # split_dots f"
  by (induction n) auto

lemma parse_name_plain: "plain n \<Longrightarrow> parse_name n = Inr [n]"
  by (cases n) (auto simp: plain_def parse_name_def split_dots_plain)

lemma parse_name_field: "plain n \<Longrightarrow> plain f \<Longrightarrow> parse_name (n @ CHR ''.'' # f) = Inr [n, f]"
  by (cases n) (auto simp: plain_def parse_name_def split_dots_plain split_dots_append)

lemma resolvable_nth: "resolvable names \<Longrightarrow> i < length names \<Longrightarrow> plain (names ! i)"
  by (simp add: resolvable_def list_all_length)

lemma resolve_col_top:
  assumes "resolvable (map fst sch)" and "k < length sch"
  shows "resolve_col sch (Col (fst (sch ! k))) = Inr (fst (sch ! k), k, [], snd (sch ! k))"
proof -
  have "plain (fst (sch ! k))" using resolvable_nth [OF assms(1)] assms(2) by simp
  moreover have "resolve_name (map fst sch) (fst (sch ! k)) = Inr k"
    using resolve_name_nth [of "map fst sch" k] assms by simp
  ultimately show ?thesis by (simp add: parse_name_plain)
qed

lemma resolve_col_field:
  assumes "resolvable (map fst sch)" and "k < length sch" and "sch ! k = (n, StructT fs)"
    and "resolvable (map fst fs)" and "j < length fs"
  shows "resolve_col sch (Alias (Col (n @ ''.'' @ fst (fs ! j))) name) =
           Inr (name, k, [j], snd (fs ! j))"
proof -
  have n: "plain n" using resolvable_nth [OF assms(1)] assms(2,3) by force
  have f: "plain (fst (fs ! j))" using resolvable_nth [OF assms(4)] assms(5) by simp
  have "resolve_name (map fst sch) n = Inr k"
    using resolve_name_nth [of "map fst sch" k] assms(1,2,3) by simp
  moreover have "resolve_name (map fst fs) (fst (fs ! j)) = Inr j"
    using resolve_name_nth [of "map fst fs" j] assms(4,5) by simp
  ultimately show ?thesis
    using assms(3) by (simp add: parse_name_field [OF n f])
qed


subsection \<open>The loop over the columns\<close>

text \<open>The rows after the list columns from position \<open>k\<close> on have been exploded, the schema
  entry of an exploded column, and the column expressions the loop appends.\<close>

definition explode_at :: "nat \<Rightarrow> row list \<Rightarrow> row list" where
  "explode_at i rs = concat (map (\<lambda>r. map (\<lambda>x. r[i := x]) (explode (cell r i))) rs)"

fun ex_rows :: "(string \<times> dtype) list \<Rightarrow> nat \<Rightarrow> row list \<Rightarrow> row list" where
  "ex_rows [] k rs = rs"
| "ex_rows ((n, ArrayT e) # rest) k rs = ex_rows rest (Suc k) (explode_at k rs)"
| "ex_rows (f # rest) k rs = ex_rows rest (Suc k) rs"

fun strip_array :: "string \<times> dtype \<Rightarrow> string \<times> dtype" where
  "strip_array (n, ArrayT e) = (n, e)"
| "strip_array f = f"

fun columns_of :: "string \<times> dtype \<Rightarrow> column list" where
  "columns_of (n, StructT fs) =
     map (\<lambda>(fname, _). Alias (Col (n @ ''.'' @ fname)) (n @ ''_'' @ fname)) fs"
| "columns_of (n, t) = [Col n]"

lemma drop_eq_Cons:
  "drop k xs = y # ys \<Longrightarrow> k < length xs \<and> xs ! k = y \<and> drop (Suc k) xs = ys"
  by (metis Cons_nth_drop_Suc drop_all linorder_not_less list.discI list.inject)

lemma resolvable_distinct: "resolvable names \<Longrightarrow> distinct names"
  by (simp add: resolvable_def distinct_map)

lemma schema_getitem_nth:
  assumes "resolvable (map fst sch)" and "k < length sch"
  shows "schema_getitem sch (fst (sch ! k)) = Inr (snd (sch ! k))"
proof -
  have "distinct (map fst sch)" by (rule resolvable_distinct [OF assms(1)])
  moreover have "(fst (sch ! k), snd (sch ! k)) \<in> set sch" using assms(2) by simp
  ultimately have "map_of sch (fst (sch ! k)) = Some (snd (sch ! k))" by (rule map_of_is_SomeI)
  then show ?thesis by (simp add: schema_getitem_def)
qed

lemma withColumn_explode_nth:
  assumes "resolvable (map fst (schema df))" and "k < length (schema df)"
    and "schema df ! k = (n, ArrayT e)"
  shows "withColumn_explode df n =
           Inr \<lparr>schema = (schema df)[k := (n, e)], rows = explode_at k (rows df)\<rparr>"
  using resolve_col_top [OF assms(1,2)] assms(3)
  by (simp add: withColumn_explode_def explode_at_def)

lemma column_loop_resolvable:
  assumes "resolvable (map fst (schema df))" and "drop k (schema df) = rest"
  shows "column_loop (map fst rest) df cl =
           Inr (\<lparr>schema = take k (schema df) @ map strip_array rest, rows = ex_rows rest k (rows df)\<rparr>,
                cl @ concat (map columns_of rest))"
  using assms
proof (induction rest arbitrary: df cl k)
  case Nil
  then show ?case by simp
next
  case (Cons f rest)
  obtain n t where f: "f = (n, t)" by (cases f)
  from drop_eq_Cons [OF Cons.prems(2)] f have
    k: "k < length (schema df)" and at: "schema df ! k = (n, t)" and
    rest: "drop (Suc k) (schema df) = rest" by simp_all
  have get: "schema_getitem (schema df) n = Inr t"
    using schema_getitem_nth [OF Cons.prems(1) k] at by simp
  have tk: "take (Suc k) (schema df) = take k (schema df) @ [(n, t)]"
    using k at by (simp add: take_Suc_conv_app_nth)
  show ?case
  proof (cases t)
    case ScalarT
    with Cons.IH [OF Cons.prems(1) rest, of "cl @ [Col n]"] get f tk show ?thesis by simp
  next
    case (StructT fs)
    with Cons.IH [OF Cons.prems(1) rest, of "cl @ columns_of (n, t)"] get f tk show ?thesis by simp
  next
    case (ArrayT e)
    let ?df1 = "\<lparr>schema = (schema df)[k := (n, e)], rows = explode_at k (rows df)\<rparr>"
    have w: "withColumn_explode df n = Inr ?df1"
      using withColumn_explode_nth [OF Cons.prems(1) k] at ArrayT by simp
    have "map fst (schema ?df1) = map fst (schema df)"
      using at by (simp add: map_update list_update_same_conv k)
    then have r1: "resolvable (map fst (schema ?df1))" using Cons.prems(1) by simp
    have d1: "drop (Suc k) (schema ?df1) = rest" using rest by simp
    have "take (Suc k) (schema ?df1) = take k (schema df) @ [(n, e)]"
      using k by (simp add: take_Suc_conv_app_nth)
    with Cons.IH [OF r1 d1, of "cl @ [Col n]"] get f w ArrayT show ?thesis by simp
  qed
qed

subsection \<open>The final \<open>select\<close>\<close>

text \<open>What the appended column expressions resolve to.\<close>

fun refs_of :: "nat \<Rightarrow> string \<times> dtype \<Rightarrow> (string \<times> nat \<times> nat list \<times> dtype) list" where
  "refs_of k (n, StructT fs) =
     map (\<lambda>j. (n @ ''_'' @ fst (fs ! j), k, [j], snd (fs ! j))) [0..<length fs]"
| "refs_of k (n, ArrayT e) = [(n, k, [], e)]"
| "refs_of k (n, ScalarT) = [(n, k, [], ScalarT)]"

fun refs_from :: "nat \<Rightarrow> (string \<times> dtype) list \<Rightarrow> (string \<times> nat \<times> nat list \<times> dtype) list" where
  "refs_from k [] = []"
| "refs_from k (f # rest) = refs_of k f @ refs_from (Suc k) rest"

lemma resolve_cols_append:
  "resolve_cols sch as = Inr ra \<Longrightarrow> resolve_cols sch bs = Inr rb \<Longrightarrow>
     resolve_cols sch (as @ bs) = Inr (ra @ rb)"
  by (induction as arbitrary: ra) (auto split: sum.splits)

lemma resolve_cols_map:
  "(\<And>x. x \<in> set xs \<Longrightarrow> resolve_col sch (f x) = Inr (g x)) \<Longrightarrow>
     resolve_cols sch (map f xs) = Inr (map g xs)"
  by (induction xs) auto

lemma map_by_index: "map f xs = map (\<lambda>j. f (xs ! j)) [0..<length xs]"
  by (rule nth_equalityI) simp_all

lemma fst_strip_array [simp]: "fst (strip_array f) = fst f"
  by (cases f rule: strip_array.cases) auto

lemma resolve_cols_column:
  assumes "resolvable (map fst S)" and "k < length S" and "S ! k = strip_array (n, t)"
    and "fields_resolvable t"
  shows "resolve_cols S (columns_of (n, t)) = Inr (refs_of k (n, t))"
proof (cases t)
  case ScalarT
  with resolve_col_top [OF assms(1,2)] assms(3) show ?thesis by simp
next
  case (ArrayT e)
  with resolve_col_top [OF assms(1,2)] assms(3) show ?thesis by simp
next
  case (StructT fs)
  let ?F = "\<lambda>j. Alias (Col (n @ ''.'' @ fst (fs ! j))) (n @ ''_'' @ fst (fs ! j))"
  let ?G = "\<lambda>j. (n @ ''_'' @ fst (fs ! j), k, [j], snd (fs ! j))"
  have c: "columns_of (n, t) = map ?F [0..<length fs]"
    unfolding StructT columns_of.simps by (subst map_by_index) (simp add: case_prod_beta)
  have "resolve_col S (?F j) = Inr (?G j)" if "j \<in> set [0..<length fs]" for j
    using resolve_col_field [OF assms(1,2), of n fs j] assms(3,4) StructT that by simp
  then have "resolve_cols S (map ?F [0..<length fs]) = Inr (map ?G [0..<length fs])"
    by (rule resolve_cols_map)
  with c show ?thesis unfolding StructT refs_of.simps by (simp only:)
qed

lemma resolve_cols_resolvable:
  assumes "resolvable (map fst sch)" and "list_all (\<lambda>f. fields_resolvable (snd f)) sch"
    and "drop k sch = rest"
  shows "resolve_cols (map strip_array sch) (concat (map columns_of rest)) = Inr (refs_from k rest)"
  using assms(3)
proof (induction rest arbitrary: k)
  case Nil
  then show ?case by simp
next
  case (Cons f rest)
  obtain n t where f: "f = (n, t)" by (cases f)
  from drop_eq_Cons [OF Cons.prems] f have
    k: "k < length sch" and at: "sch ! k = (n, t)" and rest: "drop (Suc k) sch = rest" by simp_all
  have names: "map fst (map strip_array sch) = map fst sch" by (simp add: comp_def)
  have "fields_resolvable t"
    using assms(2) k at by (auto simp: list_all_length)
  then have "resolve_cols (map strip_array sch) (columns_of (n, t)) = Inr (refs_of k (n, t))"
    using assms(1) k at by (intro resolve_cols_column) (simp_all only: names length_map nth_map)
  with Cons.IH [OF rest] f show ?case by (simp add: resolve_cols_append)
qed

lemma refs_from_schema:
  "map (\<lambda>(name, i, path, t). (name, t)) (refs_from k rest) = concat (map out_fields rest)"
proof (induction rest arbitrary: k)
  case Nil
  then show ?case by simp
next
  case (Cons f rest)
  obtain n t where f: "f = (n, t)" by (cases f)
  have "map (\<lambda>(name, i, path, t). (name, t)) (refs_of k (n, t)) = out_fields (n, t)"
  proof (cases t)
    case (StructT fs)
    have "out_fields (n, StructT fs) = map (\<lambda>j. (n @ ''_'' @ fst (fs ! j), snd (fs ! j))) [0..<length fs]"
      unfolding out_fields.simps by (subst map_by_index) (simp add: case_prod_beta)
    with StructT show ?thesis by simp
  qed simp_all
  with Cons.IH f show ?case by simp
qed


subsection \<open>The rows\<close>

text \<open>The cells one column of a row contributes to the output of \<open>select\<close>.\<close>

fun pcell :: "dtype \<Rightarrow> val \<Rightarrow> val list" where
  "pcell (StructT fs) v = map (\<lambda>j. get_path v [j]) [0..<length fs]"
| "pcell t v = [v]"

definition project :: "nat \<Rightarrow> (string \<times> dtype) list \<Rightarrow> row \<Rightarrow> val list" where
  "project k rest r = map (\<lambda>(name, i, path, t). get_path (cell r i) path) (refs_from k rest)"

lemma proj_Nil [simp]: "project k [] r = []"
  by (simp add: project_def)

lemma proj_Cons [simp]: "project k ((n, t) # rest) r = pcell t (cell r k) @ project (Suc k) rest r"
  by (cases t) (simp_all add: project_def)

lemma cell_Cons [simp]: "cell (x # r) 0 = x" "cell (x # r) (Suc k) = cell r k"
  by (simp_all add: cell_def)

lemma proj_shift: "project (Suc k) rest (x # r) = project k rest r"
proof (induction rest arbitrary: k)
  case Nil
  then show ?case by simp
next
  case (Cons f rest)
  then show ?case by (cases f) simp
qed

lemma explode_at_append: "explode_at k (a @ b) = explode_at k a @ explode_at k b"
  by (simp add: explode_at_def)

lemma explode_at_shift: "explode_at (Suc k) (map ((#) x) rs) = map ((#) x) (explode_at k rs)"
  by (induction rs) (simp_all add: explode_at_def)

lemma explode_at_0: "explode_at 0 [v # r] = map (\<lambda>x. x # r) (explode v)"
  by (simp add: explode_at_def)

lemma ex_rows_append: "ex_rows rest k (a @ b) = ex_rows rest k a @ ex_rows rest k b"
  by (induction rest k a arbitrary: b rule: ex_rows.induct) (simp_all add: explode_at_append)

lemma ex_rows_Nil [simp]: "ex_rows rest k [] = []"
  by (induction rest k "[] :: row list" rule: ex_rows.induct) (simp_all add: explode_at_def)

lemma ex_rows_each: "ex_rows rest k rs = concat (map (\<lambda>r. ex_rows rest k [r]) rs)"
proof (induction rs)
  case Nil
  then show ?case by simp
next
  case (Cons r rs)
  have "ex_rows rest k (r # rs) = ex_rows rest k [r] @ ex_rows rest k rs"
    using ex_rows_append [of rest k "[r]" rs] by simp
  with Cons show ?case by simp
qed

lemma ex_rows_shift: "ex_rows rest (Suc k) (map ((#) x) rs) = map ((#) x) (ex_rows rest k rs)"
  by (induction rest k rs rule: ex_rows.induct) (simp_all add: explode_at_shift)

lemma ex_rows_shift1: "ex_rows rest (Suc k) [x # r] = map ((#) x) (ex_rows rest k [r])"
  using ex_rows_shift [of rest k x "[r]"] by simp

lemma append_single: "(@) [x] = (#) x"
  by (rule ext) simp

lemma proj_ex_rows:
  "length r = length sch \<Longrightarrow> map (project 0 sch) (ex_rows sch 0 [r]) = out_rows sch r"
proof (induction sch arbitrary: r)
  case Nil
  then show ?case by simp
next
  case (Cons f sch)
  obtain n t where f: "f = (n, t)" by (cases f)
  from Cons.prems obtain v r' where r: "r = v # r'" and len: "length r' = length sch"
    by (cases r) auto
  note IH = Cons.IH [OF len]
  have tail: "map (project 0 ((n, t) # sch)) (map ((#) x) (ex_rows sch 0 [r'])) =
              map (\<lambda>rest. pcell t x @ rest) (out_rows sch r')" for x
    by (simp add: proj_shift comp_def IH [symmetric])
  show ?case
  proof (cases t)
    case ScalarT
    have l: "ex_rows ((n, t) # sch) 0 [r] = map ((#) v) (ex_rows sch 0 [r'])"
      by (simp add: r ScalarT ex_rows_shift1)
    have rr: "out_rows ((n, t) # sch) r = map (\<lambda>rest. pcell t v @ rest) (out_rows sch r')"
      by (simp add: r ScalarT)
    show ?thesis unfolding f l rr by (rule tail)
  next
    case (StructT fs)
    have l: "ex_rows ((n, t) # sch) 0 [r] = map ((#) v) (ex_rows sch 0 [r'])"
      by (simp add: r StructT ex_rows_shift1)
    have rr: "out_rows ((n, t) # sch) r = map (\<lambda>rest. pcell t v @ rest) (out_rows sch r')"
      by (simp add: r StructT)
    show ?thesis unfolding f l rr by (rule tail)
  next
    case (ArrayT e)
    have "ex_rows (f # sch) 0 [r] = ex_rows sch (Suc 0) (map (\<lambda>x. x # r') (explode v))"
      using f r ArrayT by (simp add: explode_at_0)
    also have "\<dots> = concat (map (\<lambda>x. map ((#) x) (ex_rows sch 0 [r'])) (explode v))"
      by (subst ex_rows_each) (simp add: comp_def ex_rows_shift1)
    finally have "map (project 0 (f # sch)) (ex_rows (f # sch) 0 [r]) =
        concat (map (\<lambda>x. map (project 0 ((n, t) # sch)) (map ((#) x) (ex_rows sch 0 [r']))) (explode v))"
      using f by (simp add: map_concat comp_def)
    also have "\<dots> = concat (map (\<lambda>x. map (\<lambda>rest. pcell t x @ rest) (out_rows sch r')) (explode v))"
      by (simp only: tail)
    finally have E: "map (project 0 (f # sch)) (ex_rows (f # sch) 0 [r]) =
        concat (map (\<lambda>x. map (\<lambda>rest. pcell t x @ rest) (out_rows sch r')) (explode v))" .
    have O: "out_rows (f # sch) r =
        concat (map (\<lambda>x. map (\<lambda>rest. pcell t x @ rest) (out_rows sch r')) (explode v))"
      by (simp add: f r ArrayT comp_def append_single)
    show ?thesis by (simp only: E O)
  qed
qed

lemma read_nested_json_one_pass:
  assumes "well_formed df"
  shows "read_nested_json df = Inr (one_pass df)"
proof -
  from assms have
    names: "resolvable (map fst (schema df))" and
    flds: "list_all (\<lambda>f. fields_resolvable (snd f)) (schema df)" and
    shape: "list_all (\<lambda>r. length r = length (schema df)) (rows df)"
    by (simp_all add: well_formed_def)
  let ?dfE = "\<lparr>schema = map strip_array (schema df), rows = ex_rows (schema df) 0 (rows df)\<rparr>"
  have loop: "column_loop (map fst (schema df)) df [] = Inr (?dfE, concat (map columns_of (schema df)))"
    using column_loop_resolvable [OF names, of 0 "schema df" "[]"] by simp
  have sel: "resolve_cols (schema ?dfE) (concat (map columns_of (schema df))) = Inr (refs_from 0 (schema df))"
    using resolve_cols_resolvable [OF names flds, of 0 "schema df"] by simp
  have "map (project 0 (schema df)) (ex_rows (schema df) 0 (rows df)) =
        concat (map (out_rows (schema df)) (rows df))"
  proof -
    have "map (project 0 (schema df)) (ex_rows (schema df) 0 [r]) = out_rows (schema df) r"
      if "r \<in> set (rows df)" for r
      using that shape by (intro proj_ex_rows) (simp add: list_all_iff)
    then show ?thesis
      by (subst ex_rows_each) (simp add: map_concat comp_def cong: map_cong)
  qed
  moreover have "project 0 (schema df) =
      (\<lambda>r. map (\<lambda>(name, i, path, t). get_path (cell r i) path) (refs_from 0 (schema df)))"
    by (rule ext) (simp add: project_def)
  ultimately show ?thesis
    using loop sel
    by (simp add: read_nested_json_def select_def one_pass_def refs_from_schema)
qed

section \<open>The job store: DynamoDB table \<open>processing-1\<close>\<close>

text \<open>
  Both \<open>GlueJobTrigger.py\<close> and \<open>JSONtoCSV.py\<close> talk to one DynamoDB table keyed by
  \<open>reference_id\<close>. An item is a finite map from attribute names to values (all values the
  two programs write are strings); the table maps a key to its item.
\<close>

type_synonym item = "string \<rightharpoonup> string"
type_synonym table = "string \<rightharpoonup> item"

text \<open>
  What a call to the AWS service did: it went through, or boto3 raised. The three raising
  outcomes are the three \<open>except\<close> clauses of \<open>update_dynamodb_status\<close>.
\<close>

datatype aws_outcome = CallOk | NoCredentialsError | PartialCredentialsError | ClientError

text \<open>
  \<open>table.put_item(Item=...)\<close> with no condition expression: the item stored under the key
  is replaced, whether or not one was there.
\<close>

definition put_item :: "table \<Rightarrow> string \<Rightarrow> item \<Rightarrow> table" where
  "put_item tbl key it = tbl(key \<mapsto> it)"

text \<open>
  \<open>table.update_item(Key=..., UpdateExpression="set a = :a, ...")\<close> with no condition
  expression: the named attributes are assigned and every other attribute of the item is
  kept; when no item has the key, DynamoDB creates one that holds the key and the assigned
  attributes.
\<close>

definition update_item :: "table \<Rightarrow> string \<Rightarrow> (string \<times> string) list \<Rightarrow> table" where
  "update_item tbl key sets =
     tbl(key \<mapsto> fold (\<lambda>(a, v) it. it(a \<mapsto> v)) sets
                  (case tbl key of None \<Rightarrow> [''reference_id'' \<mapsto> key] | Some it \<Rightarrow> it))"

subsection \<open>\<open>update_dynamodb_status\<close> (JSONtoCSV.py)\<close>

text \<open>Python's \<open>str.lstrip(chars)\<close> and \<open>str.rstrip(chars)\<close> remove leading and trailing
  characters that belong to the set \<open>chars\<close>.\<close>

definition lstrip :: "string \<Rightarrow> string \<Rightarrow> string" where
  "lstrip chars s = dropWhile (\<lambda>c. c \<in> set chars) s"

definition rstrip :: "string \<Rightarrow> string \<Rightarrow> string" where
  "rstrip chars s = rev (dropWhile (\<lambda>c. c \<in> set chars) (rev s))"

text \<open>\<open>s.replace('//', '/')\<close>: non-overlapping occurrences, left to right.\<close>

fun replace_slashes :: "string \<Rightarrow> string" where
  "replace_slashes (a # b # s) =
     (if a = CHR ''/'' \<and> b = CHR ''/'' then CHR ''/'' # replace_slashes s
      else a # replace_slashes (b # s))"
| "replace_slashes s = s"

text \<open>The truth value Python gives an optional string: \<open>None\<close> and \<open>""\<close> are false.\<close>

fun truthy :: "string option \<Rightarrow> bool" where
  "truthy None = False"
| "truthy (Some s) = (s \<noteq> [])"

text \<open>Line 92: \<open>s3_object_key.lstrip('s3:/').rstrip('/').replace('//', '/')\<close>.\<close>

definition clean_key :: "string \<Rightarrow> string" where
  "clean_key k = replace_slashes (rstrip ''/'' (lstrip ''s3:/'' k))"

text \<open>
  Lines 90 to 104: the attributes the update expression assigns, with their values. The key
  is cleaned when it is given and not empty, and assigned when the cleaned key is not empty.
\<close>

definition expression_values :: "string \<Rightarrow> string \<Rightarrow> string option \<Rightarrow> (string \<times> string) list" where
  "expression_values status job_end_time s3_object_key =
     (let s3_object_key =
            (if truthy s3_object_key then map_option clean_key s3_object_key else s3_object_key)
      in [(''job_status'', status), (''job_end_time'', job_end_time)] @
         (case s3_object_key of
            Some k \<Rightarrow> if k \<noteq> [] then [(''s3_object_key'', k)] else []
          | None \<Rightarrow> []))"

text \<open>
  The function takes the outcome of its one DynamoDB call and the reading of the clock
  (\<open>datetime.utcnow().isoformat()\<close>) as arguments. It has no raising path: every exception
  of the body is caught and printed, so the result is the table alone.
\<close>

definition update_dynamodb_status ::
  "aws_outcome \<Rightarrow> string \<Rightarrow> string \<Rightarrow> string \<Rightarrow> string option \<Rightarrow> table \<Rightarrow> table" where
  "update_dynamodb_status aws job_end_time reference_id status s3_object_key tbl =
     (case aws of
        CallOk \<Rightarrow> update_item tbl reference_id (expression_values status job_end_time s3_object_key)
      | _ \<Rightarrow> tbl)"

text \<open>The attribute names one call assigns, and the attribute of a stored record.\<close>

definition written :: "string option \<Rightarrow> string set" where
  "written s3_object_key = fst ` set (expression_values [] [] s3_object_key)"

definition attr :: "table \<Rightarrow> string \<Rightarrow> string \<Rightarrow> string option" where
  "attr tbl reference_id a = (case tbl reference_id of None \<Rightarrow> None | Some it \<Rightarrow> it a)"

subsection \<open>\<open>lambda_handler\<close> (GlueJobTrigger.py)\<close>

text \<open>
  The S3 event, reduced to the two fields the handler reads; \<open>object_key\<close> is the key after
  \<open>unquote_plus\<close>. An event without \<open>Records[0].s3\<close> makes the first statement raise, which
  is the value \<open>None\<close> here.
\<close>

record s3_event =
  bucket_name :: string
  object_key :: string

text \<open>What the surroundings give one invocation: the six random digits, the clock, the
  answer of \<open>glue.start_job_run\<close> (the run id, or an exception) and the outcome of
  \<open>put_item\<close>.\<close>

record trigger_env =
  random_digits :: string
  job_start_time :: string
  glue_response :: "string option"
  put_outcome :: aws_outcome

definition generate_reference_id :: "trigger_env \<Rightarrow> string" where
  "generate_reference_id env = ''REF'' @ random_digits env"

text \<open>\<open>object_key.split('/')[-1]\<close>: what follows the last slash.\<close>

definition last_path_part :: "string \<Rightarrow> string" where
  "last_path_part key = rev (takeWhile (\<lambda>c. c \<noteq> CHR ''/'') (rev key))"

text \<open>\<open>file_path.split('_', 1)\<close> has two parts exactly when the name holds an underscore.\<close>

definition split_once :: "string \<Rightarrow> (string \<times> string) option" where
  "split_once file_path =
     (if CHR ''_'' \<in> set file_path
      then Some (takeWhile (\<lambda>c. c \<noteq> CHR ''_'') file_path,
                 tl (dropWhile (\<lambda>c. c \<noteq> CHR ''_'') file_path))
      else None)"

text \<open>The handler returns its HTTP status code; the table is the state it leaves.\<close>

definition lambda_handler :: "trigger_env \<Rightarrow> s3_event option \<Rightarrow> table \<Rightarrow> nat \<times> table" where
  "lambda_handler env event tbl =
     (case event of
        None \<Rightarrow> (500, tbl)
      | Some ev \<Rightarrow>
          (case split_once (last_path_part (object_key ev)) of
             None \<Rightarrow> (400, tbl)
           | Some (email, filename) \<Rightarrow>
               (let reference_id = generate_reference_id env in
                case glue_response env of
                  None \<Rightarrow> (500, tbl)
                | Some job_id \<Rightarrow>
                    (let dynamo_params =
                           [''reference_id'' \<mapsto> reference_id,
                            ''jobId'' \<mapsto> job_id,
                            ''job_start_time'' \<mapsto> job_start_time env,
                            ''job_status'' \<mapsto> ''RUNNING'',
                            ''file_name'' \<mapsto> filename,
                            ''email'' \<mapsto> email]
                     in case put_outcome env of
                          CallOk \<Rightarrow> (200, put_item tbl reference_id dynamo_params)
                        | _ \<Rightarrow> (200, tbl)))))"

section \<open>The coordinator: \<open>main\<close> (JSONtoCSV.py)\<close>

text \<open>
  \<open>str.strip()\<close> removes the characters for which \<open>str.isspace\<close> holds: U+0009 to U+000D,
  U+001C to U+0020, U+0085, U+00A0, U+1680, U+2000 to U+200A, U+2028, U+2029, U+202F, U+205F
  and U+3000. A string here is the UTF-8 encoding of the Python string, so each of them is
  a string of one to three bytes.
\<close>

definition py_whitespace :: "string list" where
  "py_whitespace =
     [[CHR 0x09], [CHR 0x0A], [CHR 0x0B], [CHR 0x0C], [CHR 0x0D],
      [CHR 0x1C], [CHR 0x1D], [CHR 0x1E], [CHR 0x1F], [CHR 0x20],
      [CHR 0xC2, CHR 0x85], [CHR 0xC2, CHR 0xA0],
      [CHR 0xE1, CHR 0x9A, CHR 0x80],
      [CHR 0xE2, CHR 0x80, CHR 0x80], [CHR 0xE2, CHR 0x80, CHR 0x81], [CHR 0xE2, CHR 0x80, CHR 0x82],
      [CHR 0xE2, CHR 0x80, CHR 0x83], [CHR 0xE2, CHR 0x80, CHR 0x84], [CHR 0xE2, CHR 0x80, CHR 0x85],
      [CHR 0xE2, CHR 0x80, CHR 0x86], [CHR 0xE2, CHR 0x80, CHR 0x87], [CHR 0xE2, CHR 0x80, CHR 0x88],
      [CHR 0xE2, CHR 0x80, CHR 0x89], [CHR 0xE2, CHR 0x80, CHR 0x8A],
      [CHR 0xE2, CHR 0x80, CHR 0xA8], [CHR 0xE2, CHR 0x80, CHR 0xA9], [CHR 0xE2, CHR 0x80, CHR 0xAF],
      [CHR 0xE2, CHR 0x81, CHR 0x9F],
      [CHR 0xE3, CHR 0x80, CHR 0x80]]"

text \<open>Removing from the front of \<open>s\<close>, as long as there is one, a string of \<open>ws\<close>.\<close>

function strip_prefixes :: "string list \<Rightarrow> string \<Rightarrow> string" where
  "strip_prefixes ws s =
     (case find (\<lambda>w. w \<noteq> [] \<and> take (length w) s = w) ws of
        None \<Rightarrow> s
      | Some w \<Rightarrow> strip_prefixes ws (drop (length w) s))"
  by pat_completeness auto
termination
proof (relation "measure (\<lambda>(ws, s). length s)")
  fix ws :: "string list" and s w :: string
  assume "find (\<lambda>w. w \<noteq> [] \<and> take (length w) s = w) ws = Some w"
  then have w: "w \<noteq> []" "take (length w) s = w" by (auto simp: find_Some_iff)
  have "length (take (length w) s) \<le> length s" by simp
  with w(2) have "length w \<le> length s" by simp
  with w(1) show "((ws, drop (length w) s), (ws, s)) \<in> measure (\<lambda>(ws, s). length s)"
    by (cases w) auto
qed simp

text \<open>\<open>s.strip()\<close>: white space goes from both ends. In UTF-8 the bytes of one character
  never end with the bytes of another, so the encodings can be removed from a reversed string
  in the same way.\<close>

definition py_strip :: "string \<Rightarrow> string" where
  "py_strip s = rev (strip_prefixes (map rev py_whitespace) (rev (strip_prefixes py_whitespace s)))"

text \<open>The job arguments \<open>getResolvedOptions\<close> returns; all four are required, so a run
  that reaches the body has them.\<close>

record job_args =
  input_path :: string
  output_path :: string
  reference_ID :: string
  email :: string

text \<open>
  What the surroundings give one run: the result of \<open>spark.read.json\<close> (a data frame or an
  exception), the exception of \<open>show(5)\<close> and of the CSV write if they raise, the time stamp
  of the output name, and the clock reading and the outcome of the DynamoDB call inside
  \<open>update_dynamodb_status\<close>.
\<close>

record glue_env =
  read_json :: "error + dataframe"
  show_error :: "error option"
  timestamp :: string
  write_error :: "error option"
  clock :: string
  dynamo :: aws_outcome





section \<open>Example data\<close>

subsection \<open>Batches\<close>

text \<open>
  The batches Spark reads from the records \<open>{"a": [1,2,3]}\<close>, \<open>{"a": {"x": 1, "y": 2}}\<close>,
  \<open>{"a": [1,2], "b": [3,4]}\<close>, \<open>{"a": {"x": 1}, "a_x": [[1]]}\<close>, \<open>{"a": {"x": 1}, "a_x": 2}\<close>
  and \<open>{"a": [{"x": 1}, {"x": 2}]}\<close>, a batch of three records whose list is \<open>[7]\<close>, empty
  and null, and the batches of \<open>{"a.b": 1}\<close> and \<open>{"a": {"x.y": 1}}\<close>.
\<close>

definition list_record :: dataframe where
  "list_record = \<lparr>schema = [(''a'', ArrayT ScalarT)], rows = [[ArrV [NumV 1, NumV 2, NumV 3]]]\<rparr>"

definition object_record :: dataframe where
  "object_record = \<lparr>schema = [(''a'', StructT [(''x'', ScalarT), (''y'', ScalarT)])],
                      rows = [[StructV [NumV 1, NumV 2]]]\<rparr>"


definition colliding_record :: dataframe where
  "colliding_record = \<lparr>schema = [(''a'', StructT [(''x'', ScalarT)]), (''a_x'', ArrayT (ArrayT ScalarT))],
                         rows = [[StructV [NumV 1], ArrV [ArrV [NumV 1]]]]\<rparr>"



definition empty_list_batch :: dataframe where
  "empty_list_batch = \<lparr>schema = [(''id'', ScalarT), (''a'', ArrayT ScalarT)],
                         rows = [[NumV 1, ArrV [NumV 7]], [NumV 2, ArrV []], [NumV 3, NullV]]\<rparr>"


definition dotted_field_record :: dataframe where
  "dotted_field_record = \<lparr>schema = [(''a'', StructT [(''x.y'', ScalarT)])],
                            rows = [[StructV [NumV 1]]]\<rparr>"

subsection \<open>Job records, trigger invocations and runs\<close>

text \<open>A table holding one finished job, an invocation of the trigger whose random digits
  hit that job's key, and an upload event.\<close>

definition finished_table :: table where
  "finished_table =
     [''REF000001'' \<mapsto>
        [''reference_id'' \<mapsto> ''REF000001'', ''job_status'' \<mapsto> ''SUCCEEDED'',
         ''s3_object_key'' \<mapsto> ''bucket/out.csv'', ''error_message'' \<mapsto> ''earlier failure'']]"

definition colliding_env :: trigger_env where
  "colliding_env = \<lparr>random_digits = ''000001'', job_start_time = ''T0'',
                     glue_response = Some ''jr_1'', put_outcome = CallOk\<rparr>"

definition upload_event :: s3_event where
  "upload_event = \<lparr>bucket_name = ''uploads'', object_key = ''in/ann@example.com_data.json''\<rparr>"




definition bad_env :: glue_env where
  "bad_env = \<lparr>read_json = Inl IOError, show_error = None, timestamp = ''20240101_000000'',
               write_error = None, clock = ''T9'', dynamo = CallOk\<rparr>"




subsection \<open>Rows of a batch with at most one list column\<close>



section \<open>Properties of the flattener\<close>

subsection \<open>The output of a pass, split at a column\<close>

lemma append_Nil_fun: "(@) [] = (\<lambda>b. b)"
  by (rule ext) simp

lemma append_append_fun: "(@) (a @ b) = (\<lambda>c. a @ b @ c)"
  by (rule ext) simp

lemma concat_concat_map: "concat (concat xss) = concat (map concat xss)"
  by (induction xss) simp_all

lemma out_rows_append:
  "length r1 = length s1 \<Longrightarrow>
     out_rows (s1 @ s2) (r1 @ r2) =
       concat (map (\<lambda>a. map (\<lambda>b. a @ b) (out_rows s2 r2)) (out_rows s1 r1))"
proof (induction s1 arbitrary: r1)
  case Nil
  then show ?case by (simp add: append_Nil_fun)
next
  case (Cons f s1)
  obtain n t where f: "f = (n, t)" by (cases f)
  from Cons.prems obtain v r' where r: "r1 = v # r'" and len: "length r' = length s1"
    by (cases r1) auto
  show ?case
    unfolding f r
    by (simp add: Cons.IH [OF len] map_concat comp_def concat_concat_map append_append_fun)
qed





lemma out_rows_struct:
  assumes "length r = length (pre @ [(n, StructT fs)] @ post)"
  shows "out_rows (pre @ [(n, StructT fs)] @ post) r =
           concat (map (\<lambda>a. map (\<lambda>b. a @ map (\<lambda>j. get_path (r ! length pre) [j]) [0..<length fs] @ b)
                                 (out_rows post (drop (Suc (length pre)) r)))
                       (out_rows pre (take (length pre) r)))"
proof -
  let ?k = "length pre"
  let ?r1 = "take ?k r" and ?r3 = "drop (Suc ?k) r"
  from assms have k: "?k < length r" by simp
  then have r: "r = ?r1 @ (r ! ?k) # ?r3" by (rule id_take_nth_drop)
  have l1: "length ?r1 = length pre" using assms by simp
  have "out_rows (pre @ [(n, StructT fs)] @ post) (?r1 @ (r ! ?k) # ?r3) =
          concat (map (\<lambda>a. map (\<lambda>b. a @ map (\<lambda>j. get_path (r ! ?k) [j]) [0..<length fs] @ b)
                                (out_rows post ?r3))
                      (out_rows pre ?r1))"
    by (simp add: out_rows_append [OF l1] comp_def)
  with r show ?thesis by simp
qed

subsection \<open>The last pass of \<open>flatten\<close>\<close>








lemma well_formed_examples:
  "well_formed list_record" "well_formed object_record" "well_formed empty_list_batch"
  by (simp_all add: well_formed_def resolvable_def plain_def lower_def ascii_def
      list_record_def object_record_def empty_list_batch_def)

subsection \<open>Termination and the result of \<open>flatten\<close>\<close>

text \<open>
  Claim C1 says that \<open>flatten\<close> stops after at most \<open>depth\<close> passes and that no column of
  its result is a list or a struct. The bound holds (\<open>flatten_passes_le_depth\<close>), and the
  result is all scalar when its column names are distinct (\<open>flatten_Inr\<close>). It is not when
  two columns of the result share a name: for the record \<open>{"a": {"x": 1}, "a_x": [[1]]}\<close> the
  first pass gives the columns \<open>a_x\<close> (a number) and \<open>a_x\<close> (a list), the check looks the name
  \<open>a_x\<close> up twice and finds the number both times, and \<open>flatten\<close> returns after one pass
  with the list column in its result.
\<close>

theorem flatten_leaves_list_column:
  "flatten_passes colliding_record =
     (Inr \<lparr>schema = [(''a_x'', ScalarT), (''a_x'', ArrayT ScalarT)],
           rows = [[NumV 1, ArrV [NumV 1]]]\<rparr>, 1)"
  by code_simp

subsection \<open>Exploding a list column\<close>




subsection \<open>Flattening a struct column\<close>

text \<open>
  Claim C3 says that one pass replaces every struct column by one column for each of its
  fields, named parent, underscore, child and carrying the value of the child, and the
  comment of line 38 says the same. The code names the field \<open>col(parent + "." + child)\<close> and
  quotes nothing, and Spark reads every dot of that string as a step into a struct: for the
  record \<open>{"a": {"x.y": 1}}\<close> it looks for a field \<open>x\<close> of \<open>a\<close>, finds none, and the pass raises
  \<open>AnalysisException\<close> where the claim has the column \<open>a_x.y\<close> with the value 1.
\<close>

theorem struct_dotted_field_raises:
  "read_nested_json dotted_field_record = Inl AnalysisException"
  by code_simp

text \<open>
  On well-formed batches (the names of the columns and of the fields of each struct column
  plain and distinct up to case) the code does what the claim says: one pass replaces a
  struct column \<open>n\<close> with fields \<open>fs\<close> by one column for each field, named \<open>n_field\<close> and of
  the type of the field, at the place of \<open>n\<close>; the column \<open>n\<close> itself is not in the output. In
  every output row the new columns hold the values of the fields of the struct in the row
  it came from.
\<close>

theorem struct_column_flattened:
  assumes "well_formed df" and "schema df = pre @ [(n, StructT fs)] @ post"
  shows "read_nested_json df =
           Inr \<lparr>schema = concat (map out_fields pre) @ map (\<lambda>(f, t). (n @ ''_'' @ f, t)) fs @
                          concat (map out_fields post),
                rows = concat (map (\<lambda>r. concat (map (\<lambda>a. map (\<lambda>b. a @ map (\<lambda>j. get_path (r ! length pre) [j])
                                                                          [0..<length fs] @ b)
                                                             (out_rows post (drop (Suc (length pre)) r)))
                                                   (out_rows pre (take (length pre) r))))
                                 (rows df))\<rparr>"
proof -
  have "out_rows (schema df) r =
          concat (map (\<lambda>a. map (\<lambda>b. a @ map (\<lambda>j. get_path (r ! length pre) [j]) [0..<length fs] @ b)
                                (out_rows post (drop (Suc (length pre)) r)))
                      (out_rows pre (take (length pre) r)))"
    if "r \<in> set (rows df)" for r
  proof -
    from that assms(1) have "length r = length (schema df)"
      by (simp add: well_formed_def list_all_iff)
    with assms(2) show ?thesis
      by (simp only: out_rows_struct)
  qed
  then have "concat (map (out_rows (schema df)) (rows df)) =
      concat (map (\<lambda>r. concat (map (\<lambda>a. map (\<lambda>b. a @ map (\<lambda>j. get_path (r ! length pre) [j])
                                                          [0..<length fs] @ b)
                                             (out_rows post (drop (Suc (length pre)) r)))
                                   (out_rows pre (take (length pre) r))))
                 (rows df))"
    by (intro arg_cong [where f = concat] map_cong) simp_all
  with read_nested_json_one_pass [OF assms(1)] assms(2) show ?thesis
    by (simp add: one_pass_def)
qed

text \<open>
  The record \<open>{"a": {"x": 1, "y": 2}}\<close> becomes one row with \<open>a_x = 1\<close> and \<open>a_y = 2\<close>.
\<close>

theorem struct_column_flattened_witness:
  "read_nested_json object_record =
     Inr \<lparr>schema = [(''a_x'', ScalarT), (''a_y'', ScalarT)], rows = [[NumV 1, NumV 2]]\<rparr>"
  using struct_column_flattened [of object_record "[]" "''a''" "[(''x'', ScalarT), (''y'', ScalarT)]" "[]"]
    well_formed_examples(2)
  by (simp add: object_record_def cell_def upt_rec)

subsection \<open>Empty and null lists\<close>










subsection \<open>A pass on a flat batch\<close>




section \<open>Properties of the job store operations\<close>

subsection \<open>Assignments of an update expression\<close>

lemma fst_expression_values:
  "map fst (expression_values st now key) = map fst (expression_values st' now' key)"
  by (cases key) (simp_all add: expression_values_def)

lemma written_None: "written None = {''job_status'', ''job_end_time''}"
  by (auto simp: written_def expression_values_def)

lemma written_subset: "written key \<subseteq> {''job_status'', ''job_end_time'', ''s3_object_key''}"
  by (cases key) (auto simp: written_def expression_values_def)

lemma fold_assign: "fold (\<lambda>(a, v) it. it(a \<mapsto> v)) sets it = it ++ map_of (rev sets)"
  by (induction sets arbitrary: it)
     (auto simp: map_add_upd_left fun_eq_iff map_add_def split: option.splits)

lemma fold_assign_frame:
  "a \<notin> fst ` set sets \<Longrightarrow> fold (\<lambda>(a, v) it. it(a \<mapsto> v)) sets it a = it a"
  by (simp add: fold_assign map_add_dom_app_simps dom_map_of_conv_image_fst)

lemma fold_assign_twice:
  assumes "map fst s1 = map fst s2"
  shows "fold (\<lambda>(a, v) it. it(a \<mapsto> v)) s2 (fold (\<lambda>(a, v) it. it(a \<mapsto> v)) s1 it) =
         fold (\<lambda>(a, v) it. it(a \<mapsto> v)) s2 it"
proof -
  have "dom (map_of (rev s1)) \<subseteq> dom (map_of (rev s2))"
    using assms by (metis dom_map_of_conv_image_fst list.set_map set_rev subset_refl)
  then show ?thesis
    by (auto simp: fold_assign fun_eq_iff map_add_def split: option.splits)
qed

subsection \<open>Status updates are never rejected\<close>

text \<open>
  Claim C5 says that the status transition fails with \<open>NotFoundError\<close> for an unknown
  \<open>reference_id\<close>, fails with \<open>InvalidTransitionError\<close> for a status that is not reachable from
  the current one, and leaves the record unchanged when it rejects. The code has neither
  check. On the table that holds only the finished job \<open>REF000001\<close>, an update for the unknown
  key \<open>REF000002\<close> creates a record with status \<open>SUCCEEDED\<close>, and an update of the finished job
  to \<open>RUNNING\<close> is applied.
\<close>

theorem status_update_rejects_counterexample:
  "attr finished_table ''REF000002'' ''job_status'' = None \<and>
   attr (update_dynamodb_status CallOk ''T1'' ''REF000002'' ''SUCCEEDED'' None finished_table)
     ''REF000002'' ''job_status'' = Some ''SUCCEEDED'' \<and>
   attr finished_table ''REF000001'' ''job_status'' = Some ''SUCCEEDED'' \<and>
   attr (update_dynamodb_status CallOk ''T1'' ''REF000001'' ''RUNNING'' None finished_table)
     ''REF000001'' ''job_status'' = Some ''RUNNING''"
  by (simp add: attr_def update_dynamodb_status_def update_item_def expression_values_def
      finished_table_def)

text \<open>
  Claim C5, as the code has it: whenever the DynamoDB call goes through, the record under
  the given \<open>reference_id\<close> holds the given status and the call's clock reading afterwards,
  for every table (the key may be absent) and every status (whatever the stored one is).
  No call is rejected.
\<close>

theorem status_update_never_rejects:
  "attr (update_dynamodb_status CallOk now rid st key tbl) rid ''job_status'' = Some st \<and>
   attr (update_dynamodb_status CallOk now rid st key tbl) rid ''job_end_time'' = Some now"
  by (cases key)
     (auto simp: attr_def update_dynamodb_status_def update_item_def expression_values_def)

subsection \<open>Status updates are partial updates\<close>

text \<open>
  Claim C6: a status update assigns \<open>job_status\<close>, \<open>job_end_time\<close> and, when a key is supplied,
  \<open>s3_object_key\<close>, and nothing else. Every other attribute of every stored record keeps its
  value: an update that supplies no output key leaves a stored \<open>s3_object_key\<close> as it is, and
  an \<open>error_message\<close> is never touched. (When the key is new, the record DynamoDB creates
  holds \<open>reference_id\<close> besides the assigned attributes.)
\<close>

theorem status_update_frame:
  assumes "a \<noteq> ''job_status''" and "a \<noteq> ''job_end_time''"
    and "a = ''s3_object_key'' \<longrightarrow> s3_object_key = None"
  shows "attr (update_dynamodb_status aws now rid st s3_object_key tbl) rid' a =
           (if tbl rid = None \<and> rid' = rid \<and> aws = CallOk \<and> a = ''reference_id''
            then Some rid else attr tbl rid' a)"
proof -
  have "a \<notin> written s3_object_key"
  proof (cases "a = ''s3_object_key''")
    case True
    with assms(3) show ?thesis by (simp add: written_None)
  next
    case False
    with assms(1,2) written_subset [of s3_object_key] show ?thesis by blast
  qed
  then have "a \<notin> fst ` set (expression_values st now s3_object_key)"
    using fst_expression_values [of st now s3_object_key "[]" "[]"]
    by (metis list.set_map written_def)
  then have "fold (\<lambda>(a, v) it. it(a \<mapsto> v)) (expression_values st now s3_object_key) it a = it a"
    for it
    by (rule fold_assign_frame)
  then show ?thesis
    by (cases "tbl rid"; cases aws)
       (auto simp add: attr_def update_dynamodb_status_def update_item_def)
qed

text \<open>The finished job marked \<open>FAILED\<close> with no key supplied keeps its output key and its
  error message.\<close>

theorem status_update_frame_witness:
  "attr (update_dynamodb_status CallOk ''T1'' ''REF000001'' ''FAILED'' None finished_table)
     ''REF000001'' ''s3_object_key'' = Some ''bucket/out.csv'' \<and>
   attr (update_dynamodb_status CallOk ''T1'' ''REF000001'' ''FAILED'' None finished_table)
     ''REF000001'' ''error_message'' = Some ''earlier failure''"
  using
    status_update_frame [of "''s3_object_key''" None CallOk "''T1''" "''REF000001''" "''FAILED''"
      finished_table "''REF000001''"]
    status_update_frame [of "''error_message''" None CallOk "''T1''" "''REF000001''" "''FAILED''"
      finished_table "''REF000001''"]
  by (simp add: attr_def finished_table_def)

subsection \<open>Repeating a status update\<close>

text \<open>
  Claim C8 says that a second, identical transition leaves the record identical to the
  record after a single call. Each call writes its own clock reading into \<open>job_end_time\<close>:
  after calls at \<open>T1\<close> and \<open>T2\<close> the record holds \<open>T2\<close>, after the single call at \<open>T1\<close> it
  holds \<open>T1\<close>.
\<close>

theorem status_update_twice_counterexample:
  "attr (update_dynamodb_status CallOk ''T2'' ''REF000001'' ''SUCCEEDED'' (Some ''s3://bucket/out.csv'')
          (update_dynamodb_status CallOk ''T1'' ''REF000001'' ''SUCCEEDED'' (Some ''s3://bucket/out.csv'')
             finished_table)) ''REF000001'' ''job_end_time'' = Some ''T2'' \<and>
   attr (update_dynamodb_status CallOk ''T1'' ''REF000001'' ''SUCCEEDED'' (Some ''s3://bucket/out.csv'')
          finished_table) ''REF000001'' ''job_end_time'' = Some ''T1''"
  by (simp add: attr_def update_dynamodb_status_def update_item_def expression_values_def
      finished_table_def)

text \<open>
  Claim C8, as the code has it: two calls in succession with the same \<open>reference_id\<close>, status
  and key raise nothing, each call catching the exception of its own DynamoDB write. When
  the write of the second call goes through, the table is the table one call made at the
  time of the second leaves, whatever became of the first write: no attribute differs from
  a single call but \<open>job_end_time\<close>, which holds the second clock reading. When the second
  write is refused, the table is as the first call left it.
\<close>

theorem status_update_twice:
  "update_dynamodb_status aws2 t2 rid st key (update_dynamodb_status aws1 t1 rid st key tbl) =
     (if aws2 = CallOk then update_dynamodb_status CallOk t2 rid st key tbl
      else update_dynamodb_status aws1 t1 rid st key tbl)"
  by (cases aws2; cases aws1)
     (simp_all add: update_dynamodb_status_def update_item_def
        fold_assign_twice [OF fst_expression_values])

subsection \<open>Creating a job record\<close>

lemma upload_event_parts:
  "split_once (last_path_part (object_key upload_event)) = Some (''ann@example.com'', ''data.json'')"
  by (simp add: split_once_def last_path_part_def upload_event_def)

text \<open>
  Claim C9 says that creating a record under an existing \<open>reference_id\<close> fails with
  \<open>DuplicateJobError\<close> and never overwrites. The handler draws \<open>REF000001\<close> while the finished
  job \<open>REF000001\<close> is stored: it answers 200, and the stored record is the new one, status
  \<open>RUNNING\<close>, the output key of the finished job gone.
\<close>

theorem create_duplicate_counterexample:
  "attr finished_table ''REF000001'' ''s3_object_key'' = Some ''bucket/out.csv'' \<and>
   generate_reference_id colliding_env = ''REF000001'' \<and>
   fst (lambda_handler colliding_env (Some upload_event) finished_table) = 200 \<and>
   attr (snd (lambda_handler colliding_env (Some upload_event) finished_table))
     ''REF000001'' ''s3_object_key'' = None \<and>
   attr (snd (lambda_handler colliding_env (Some upload_event) finished_table))
     ''REF000001'' ''job_status'' = Some ''RUNNING''"
  by (simp add: lambda_handler_def put_item_def attr_def generate_reference_id_def Let_def
      colliding_env_def finished_table_def upload_event_parts)

text \<open>
  Claim C9, as the code has it: when the file name has the form \<open>email_filename\<close>, the Glue
  job starts and \<open>put_item\<close> goes through, the handler answers 200 and the table holds the
  new record under the generated \<open>reference_id\<close>, whatever was stored under that key before.
\<close>

theorem create_replaces_existing:
  assumes "glue_response env = Some job_id" and "put_outcome env = CallOk"
    and "split_once (last_path_part (object_key ev)) = Some (address, filename)"
  shows "lambda_handler env (Some ev) tbl =
           (200, tbl(generate_reference_id env \<mapsto>
                       [''reference_id'' \<mapsto> generate_reference_id env,
                        ''jobId'' \<mapsto> job_id,
                        ''job_start_time'' \<mapsto> job_start_time env,
                        ''job_status'' \<mapsto> ''RUNNING'',
                        ''file_name'' \<mapsto> filename,
                        ''email'' \<mapsto> address]))"
  using assms by (simp add: lambda_handler_def put_item_def Let_def)

theorem create_replaces_existing_witness:
  "fst (lambda_handler colliding_env (Some upload_event) finished_table) = 200 \<and>
   attr (snd (lambda_handler colliding_env (Some upload_event) finished_table))
     ''REF000001'' ''email'' = Some ''ann@example.com''"
proof -
  have g: "glue_response colliding_env = Some ''jr_1''" and p: "put_outcome colliding_env = CallOk"
    by (simp_all add: colliding_env_def)
  show ?thesis
    using create_replaces_existing [OF g p upload_event_parts, of finished_table]
    by (simp add: attr_def generate_reference_id_def colliding_env_def)
qed

section \<open>Properties of the coordinator\<close>

text \<open>A path that is one no-break space (U+00A0) is empty after \<open>strip()\<close>.\<close>

lemma py_strip_no_break_space: "py_strip [CHR 0xC2, CHR 0xA0] = []"
  by code_simp




end
